theory Spec2Isabelle
  imports Complex_Main "HOL-Library.Word" "HOL-Library.Log_Nat"
begin

chapter \<open>MemWatchdog: the native addon and its snapshot helper\<close>

text \<open>
  A shallow embedding of \<^verbatim>\<open>packages/core/native/addon.cc\<close> and
  \<^verbatim>\<open>packages/core/native/include/snapshot.hpp\<close>. The watchdog thread's loop is a
  recursive function over the values its environment hands it in each iteration, the
  C++ heap of \<^verbatim>\<open>Watchdog\<close> objects is an explicit store, and \<^verbatim>\<open>double\<close> is IEEE-754
  binary64 with round-to-nearest-even written out over the rationals.
\<close>

section \<open>IEEE-754 binary64\<close>

text \<open>
  A \<^verbatim>\<open>double\<close> is a NaN, an infinity or a finite value. Finite values are kept as the
  rational they denote; every arithmetic operation computes the exact rational result
  and rounds it once (\<open>rnd\<close>), which is what IEEE-754 prescribes for \<open>+\<close>, \<open>-\<close>, \<open>*\<close>
  and \<open>/\<close> in the default rounding mode. The sign of zero is not kept: \<open>-0.0\<close> and
  \<open>0.0\<close> compare equal and convert to the same \<^verbatim>\<open>bool\<close> and \<^verbatim>\<open>uint32_t\<close>, and the code
  modelled here never divides by a zero. Each operation is rounded on its own (no fused
  multiply-add contraction).
\<close>

datatype double = NaN | PInf | NInf | Fin rat

definition pow2 :: "int \<Rightarrow> rat" where
  "pow2 k = (if 0 \<le> k then 2 ^ nat k else 1 / 2 ^ nat (- k))"

text \<open>\<open>ilog2 q\<close> is the binary exponent of \<open>q \<noteq> 0\<close>: \<open>2 ^ ilog2 q \<le> \<bar>q\<bar> < 2 ^ (ilog2 q + 1)\<close>.\<close>

definition ilog2 :: "rat \<Rightarrow> int" where
  "ilog2 q = (case quotient_of \<bar>q\<bar> of (a, b) \<Rightarrow>
     let k = bitlen a - bitlen b
     in if pow2 k \<le> \<bar>q\<bar> then k else k - 1)"

definition round_even :: "rat \<Rightarrow> int" where
  "round_even q = (let f = \<lfloor>q\<rfloor>; d = q - of_int f
     in if d < 1 / 2 then f else if 1 / 2 < d then f + 1
        else if even f then f else f + 1)"

text \<open>The largest finite binary64 value, \<open>(2 ^ 53 - 1) * 2 ^ 971\<close>.\<close>

definition DBL_MAX :: rat where
  "DBL_MAX = 179769313486231570814527423731704356798070567525844996598917476803157260780028538760589558632766878171540458953514382464234321326889464182768467546703537516986049910576551282076245490090389328944075868508455133942304583236903222948165808559332123348274797826204144723168738177180919299881250404026184124858368"

text \<open>
  Rounding to the nearest binary64 value, ties to the even significand: 53 significant
  bits for normal values, the fixed spacing \<open>2 ^ -1074\<close> below \<open>2 ^ -1022\<close>, and an
  infinity when the rounded value exceeds \<open>DBL_MAX\<close>.
\<close>

definition rnd :: "rat \<Rightarrow> double" where
  "rnd q = (if q = 0 then Fin 0 else
     let e = max (ilog2 q) (- 1022);
         ulp = pow2 (e - 52);
         r = of_int (round_even (q / ulp)) * ulp
     in if DBL_MAX < \<bar>r\<bar> then (if 0 < q then PInf else NInf) else Fin r)"

fun dneg :: "double \<Rightarrow> double" where
  "dneg NaN = NaN"
| "dneg PInf = NInf"
| "dneg NInf = PInf"
| "dneg (Fin a) = Fin (- a)"

fun is_negative :: "double \<Rightarrow> bool" where
  "is_negative NInf = True"
| "is_negative (Fin a) = (a < 0)"
| "is_negative _ = False"

fun dadd :: "double \<Rightarrow> double \<Rightarrow> double" where
  "dadd (Fin a) (Fin b) = rnd (a + b)"
| "dadd NaN _ = NaN"
| "dadd _ NaN = NaN"
| "dadd PInf NInf = NaN"
| "dadd NInf PInf = NaN"
| "dadd PInf _ = PInf"
| "dadd _ PInf = PInf"
| "dadd NInf _ = NInf"
| "dadd _ NInf = NInf"

definition dsub :: "double \<Rightarrow> double \<Rightarrow> double" where
  "dsub a b = dadd a (dneg b)"

fun dmul :: "double \<Rightarrow> double \<Rightarrow> double" where
  "dmul (Fin a) (Fin b) = rnd (a * b)"
| "dmul NaN _ = NaN"
| "dmul _ NaN = NaN"
| "dmul x y = (if x = Fin 0 \<or> y = Fin 0 then NaN
               else if is_negative x = is_negative y then PInf else NInf)"

text \<open>
  IEEE division. A finite non-zero value divided by zero is an infinity and \<open>0 / 0\<close> is
  NaN; with the sign of zero not kept, the infinity takes the sign of the dividend.
\<close>

fun ddiv :: "double \<Rightarrow> double \<Rightarrow> double" where
  "ddiv (Fin a) (Fin b) =
     (if b = 0 then (if a = 0 then NaN else if 0 < a then PInf else NInf)
      else rnd (a / b))"
| "ddiv NaN _ = NaN"
| "ddiv _ NaN = NaN"
| "ddiv (Fin a) _ = Fin 0"
| "ddiv x (Fin b) = (if is_negative x = (b < 0) then PInf else NInf)"
| "ddiv _ _ = NaN"

text \<open>\<^verbatim>\<open>a == b\<close> and \<^verbatim>\<open>a >= b\<close>: every comparison with a NaN is false.\<close>

fun deq :: "double \<Rightarrow> double \<Rightarrow> bool" where
  "deq (Fin a) (Fin b) = (a = b)"
| "deq PInf PInf = True"
| "deq NInf NInf = True"
| "deq _ _ = False"

fun dge :: "double \<Rightarrow> double \<Rightarrow> bool" where
  "dge (Fin a) (Fin b) = (b \<le> a)"
| "dge NaN _ = False"
| "dge _ NaN = False"
| "dge PInf _ = True"
| "dge _ NInf = True"
| "dge _ _ = False"

text \<open>
  The conversion of a \<^verbatim>\<open>double\<close> to \<^verbatim>\<open>bool\<close> (the condition of \<^verbatim>\<open>threshold ? a : b\<close>):
  zero is false and every other value, NaN included, is true.
\<close>

definition double_to_bool :: "double \<Rightarrow> bool" where
  "double_to_bool d = (d \<noteq> Fin 0)"

text \<open>\<^verbatim>\<open>static_cast<double>\<close> of an integer rounds it to the nearest binary64 value.\<close>

definition double_of_int :: "int \<Rightarrow> double" where
  "double_of_int i = rnd (of_int i)"

section \<open>Snapshot files\<close>

text \<open>
  A \<^verbatim>\<open>std::ofstream\<close>: whether the file is open, whether the stream is still good, and
  what has reached the file. Whether the device accepts a write is the environment's
  choice and is passed in with the write. A stream that is not good ignores the write.
\<close>

record ofstream =
  is_open :: bool
  good :: bool
  written :: string

definition ofstream_open :: "bool \<Rightarrow> ofstream" where
  "ofstream_open ok = \<lparr>is_open = ok, good = ok, written = []\<rparr>"

definition ofstream_write :: "ofstream \<Rightarrow> bool \<Rightarrow> string \<Rightarrow> ofstream" where
  "ofstream_write f accepted data =
     (if good f \<and> accepted then f\<lparr>written := written f @ data\<rparr> else f\<lparr>good := False\<rparr>)"

definition ofstream_close :: "ofstream \<Rightarrow> ofstream" where
  "ofstream_close f = f\<lparr>is_open := False\<rparr>"

datatype WriteResult = kContinue | kAbort

text \<open>\<^verbatim>\<open>addon.cc\<close>, class \<^verbatim>\<open>FileStream\<close>: the result of the write is not looked at.\<close>

definition FileStream_WriteAsciiChunk :: "ofstream \<Rightarrow> bool \<Rightarrow> string \<Rightarrow> ofstream \<times> WriteResult" where
  "FileStream_WriteAsciiChunk file accepted data = (ofstream_write file accepted data, kContinue)"

definition FileStream_EndOfStream :: "ofstream \<Rightarrow> ofstream" where
  "FileStream_EndOfStream file = file"

text \<open>\<^verbatim>\<open>snapshot.hpp\<close>, class \<^verbatim>\<open>FileOutputStream\<close>.\<close>

definition FileOutputStream_WriteAsciiChunk :: "ofstream \<Rightarrow> bool \<Rightarrow> string \<Rightarrow> ofstream \<times> WriteResult" where
  "FileOutputStream_WriteAsciiChunk file accepted data =
     (let file' = ofstream_write file accepted data
      in (file', if good file' then kContinue else kAbort))"

definition FileOutputStream_EndOfStream :: "ofstream \<Rightarrow> ofstream" where
  "FileOutputStream_EndOfStream file = ofstream_close file"

definition isValid :: "ofstream \<Rightarrow> bool" where
  "isValid file = is_open file"

text \<open>
  \<^verbatim>\<open>v8::HeapSnapshot::Serialize\<close> hands the snapshot to the stream chunk by chunk, stops
  at the first \<^verbatim>\<open>kAbort\<close>, and calls \<^verbatim>\<open>EndOfStream\<close> after the last chunk otherwise.
  A snapshot is the list of its chunks, each paired with whether the device accepts it.
\<close>

type_synonym snapshot = "(string \<times> bool) list"

fun Serialize ::
  "('s \<Rightarrow> bool \<Rightarrow> string \<Rightarrow> 's \<times> WriteResult) \<Rightarrow> ('s \<Rightarrow> 's) \<Rightarrow> 's \<Rightarrow> snapshot \<Rightarrow> 's" where
  "Serialize wr eos s [] = eos s"
| "Serialize wr eos s ((data, accepted) # cs) =
     (case wr s accepted data of
        (s', kContinue) \<Rightarrow> Serialize wr eos s' cs
      | (s', kAbort) \<Rightarrow> s')"

text \<open>
  \<^verbatim>\<open>DumpSnapshot(iso, path)\<close>: \<open>opens\<close> says whether \<^verbatim>\<open>path\<close> can be opened for writing;
  the result is the returned \<^verbatim>\<open>bool\<close> and the file as it is left.
\<close>

definition DumpSnapshot :: "bool \<Rightarrow> snapshot \<Rightarrow> bool \<times> ofstream" where
  "DumpSnapshot opens snap =
     (let out = ofstream_open opens
      in if \<not> is_open out then (False, out)
         else (True, Serialize FileStream_WriteAsciiChunk FileStream_EndOfStream out snap))"

text \<open>
  \<^verbatim>\<open>HeapSnapshotWriter::write(path)\<close>: \<open>isolate\<close> says whether the calling thread has a
  current isolate. Without one nothing is opened.
\<close>

definition HeapSnapshotWriter_write :: "bool \<Rightarrow> bool \<Rightarrow> snapshot \<Rightarrow> bool \<times> ofstream option" where
  "HeapSnapshotWriter_write isolate opens snap =
     (if \<not> isolate then (False, None)
      else let stream = ofstream_open opens
           in if \<not> isValid stream then (False, Some stream)
              else (True, Some (Serialize FileOutputStream_WriteAsciiChunk
                                  FileOutputStream_EndOfStream stream snap)))"

section \<open>The watchdog\<close>

text \<open>
  \<^verbatim>\<open>Watchdog::Options\<close>. The thread-safe function is kept in the watchdog's state below.
\<close>

record Options =
  interval :: "32 word"
  window :: "32 word"
  threshold :: double

text \<open>
  \<^verbatim>\<open>Watchdog::Pt\<close>. A \<^verbatim>\<open>Clock::time_point\<close> is the steady clock's tick count since its
  epoch, in nanoseconds; \<^verbatim>\<open>size_t\<close> is 64 bits wide.
\<close>

record Pt =
  t :: int
  bytes :: "64 word"

datatype fault = DivisionByZero | DeleteOfFreed nat

text \<open>\<^verbatim>\<open>a / b\<close> on \<^verbatim>\<open>double\<close>: a zero divisor is the failure the operation can have.\<close>

definition checked_div :: "double \<Rightarrow> double \<Rightarrow> fault + double" where
  "checked_div a b = (if deq b (Fin 0) then Inl DivisionByZero else Inr (ddiv a b))"

text \<open>
  \<^verbatim>\<open>std::chrono::duration<double, std::milli>(p.t.time_since_epoch()).count()\<close>: the tick
  count converted to \<^verbatim>\<open>double\<close> and divided by the \<open>10\<^sup>6\<close> nanoseconds of a millisecond.
\<close>

definition millis :: "int \<Rightarrow> double" where
  "millis ticks = ddiv (double_of_int ticks) (Fin 1000000)"

definition sample_x :: "Pt \<Rightarrow> double" where
  "sample_x p = millis (t p)"

definition sample_y :: "Pt \<Rightarrow> double" where
  "sample_y p = double_of_int (uint (bytes p))"

text \<open>The body of the \<^verbatim>\<open>for\<close> loop of \<^verbatim>\<open>Watchdog::slope\<close>, on \<open>(sx, sy, sxy, sx2)\<close>.\<close>

definition slope_step :: "double \<times> double \<times> double \<times> double \<Rightarrow> Pt \<Rightarrow> double \<times> double \<times> double \<times> double" where
  "slope_step acc p = (case acc of (sx, sy, sxy, sx2) \<Rightarrow>
     let x = sample_x p; y = sample_y p
     in (dadd sx x, dadd sy y, dadd sxy (dmul x y), dadd sx2 (dmul x x)))"

definition slope_sums :: "Pt list \<Rightarrow> double \<times> double \<times> double \<times> double" where
  "slope_sums buf = foldl slope_step (Fin 0, Fin 0, Fin 0, Fin 0) buf"

definition slope_denom :: "Pt list \<Rightarrow> double" where
  "slope_denom buf = (case slope_sums buf of (sx, sy, sxy, sx2) \<Rightarrow>
     dsub (dmul (double_of_int (int (length buf))) sx2) (dmul sx sx))"

definition slope :: "Pt list \<Rightarrow> fault + double" where
  "slope buf =
     (if length buf < 3 then Inr (Fin 0)
      else case slope_sums buf of (sx, sy, sxy, sx2) \<Rightarrow>
        let n = double_of_int (int (length buf));
            denom = dsub (dmul n sx2) (dmul sx sx)
        in if deq denom (Fin 0) then Inr (Fin 0)
           else checked_div (dsub (dmul n sxy) (dmul sx sy)) denom)"

text \<open>\<^verbatim>\<open>std::to_string\<close> of a \<^verbatim>\<open>time_t\<close>.\<close>

fun digits :: "nat \<Rightarrow> string" where
  "digits n = (if n < 10 then [''0123456789'' ! n]
               else digits (n div 10) @ [''0123456789'' ! (n mod 10)])"

declare digits.simps [simp del]

definition to_string :: "int \<Rightarrow> string" where
  "to_string i = (if i < 0 then CHR ''-'' # digits (nat (- i)) else digits (nat i))"

text \<open>
  What one iteration of \<^verbatim>\<open>Watchdog::loop\<close> reads from outside the watchdog: the value of
  \<^verbatim>\<open>running_\<close> it loads at the top, the steady clock, the heap statistics, the wall clock,
  and for a capture whether the file opens and the chunks of the snapshot. The isolate
  that \<^verbatim>\<open>v8::Isolate::GetCurrent()\<close> returned before the loop is taken to be one that
  answers these calls.
\<close>

record tick =
  running_seen :: bool
  now :: int
  used_heap_size :: "64 word"
  wall_time :: int
  file_opens :: bool
  heap_snapshot :: snapshot

text \<open>
  What an iteration does that is visible outside: a call of \<^verbatim>\<open>DumpSnapshot\<close> with the
  file name and its result, and a \<^verbatim>\<open>BlockingCall\<close> on the thread-safe function with the
  arguments the JavaScript callback will get.
\<close>

datatype event = Capture string bool | BlockingCall double string

text \<open>Lines 103 and 104: \<^verbatim>\<open>push_back\<close>, then one \<^verbatim>\<open>pop_front\<close> when the size exceeds the window.\<close>

definition push_sample :: "32 word \<Rightarrow> Pt list \<Rightarrow> Pt \<Rightarrow> Pt list" where
  "push_sample w buf p =
     (let buf' = buf @ [p] in if unat w < length buf' then tl buf' else buf')"

definition snapshot_name :: "int \<Rightarrow> string" where
  "snapshot_name time = ''heap-'' @ to_string time @ ''.heapsnapshot''"

text \<open>The body of the \<^verbatim>\<open>while\<close> loop after the sleep.\<close>

definition cycle :: "Options \<Rightarrow> Pt list \<Rightarrow> tick \<Rightarrow> fault + (Pt list \<times> event list)" where
  "cycle opts buf e =
     (let buf' = push_sample (window opts) buf \<lparr>t = now e, bytes = used_heap_size e\<rparr>
      in case slope buf' of
           Inl f \<Rightarrow> Inl f
         | Inr sl \<Rightarrow>
             if dge sl (threshold opts) then
               let file = snapshot_name (wall_time e)
               in if fst (DumpSnapshot (file_opens e) (heap_snapshot e))
                  then Inr (buf', [Capture file True, BlockingCall sl file])
                  else Inr (buf', [Capture file False])
             else Inr (buf', []))"

text \<open>
  \<^verbatim>\<open>Watchdog::loop\<close> over the iterations that are observed. The result says whether the
  thread has left the loop (\<open>exited\<close>) or is still in it when the observation ends.
\<close>

record loop_result =
  final_buf :: "Pt list"
  events :: "event list"
  exited :: bool

fun loop :: "Options \<Rightarrow> Pt list \<Rightarrow> tick list \<Rightarrow> fault + loop_result" where
  "loop opts buf [] = Inr \<lparr>final_buf = buf, events = [], exited = False\<rparr>"
| "loop opts buf (e # es) =
     (if \<not> running_seen e then Inr \<lparr>final_buf = buf, events = [], exited = True\<rparr>
      else case cycle opts buf e of
             Inl f \<Rightarrow> Inl f
           | Inr (buf', evs) \<Rightarrow>
               (case loop opts buf' es of
                  Inl f \<Rightarrow> Inl f
                | Inr r \<Rightarrow> Inr (r\<lparr>events := evs @ events r\<rparr>)))"

section \<open>The N-API glue\<close>

text \<open>
  The values an option can hold. \<^verbatim>\<open>ToNumber\<close> is ECMAScript's: \<^verbatim>\<open>undefined\<close> is NaN,
  \<^verbatim>\<open>null\<close> is 0, a boolean is 0 or 1. \<^verbatim>\<open>Uint32Value\<close> is ECMAScript's \<^verbatim>\<open>ToUint32\<close>:
  NaN and the infinities are 0, any other number is truncated towards zero and reduced
  modulo \<open>2\<^sup>3\<^sup>2\<close>.
\<close>

datatype js_value = Undefined | Null | Boolean bool | Number double

fun Get :: "(string \<times> js_value) list \<Rightarrow> string \<Rightarrow> js_value" where
  "Get [] key = Undefined"
| "Get ((k, v) # kvs) key = (if k = key then v else Get kvs key)"

fun ToNumber :: "js_value \<Rightarrow> double" where
  "ToNumber Undefined = NaN"
| "ToNumber Null = Fin 0"
| "ToNumber (Boolean b) = (if b then Fin 1 else Fin 0)"
| "ToNumber (Number d) = d"

definition to_integer :: "rat \<Rightarrow> int" where
  "to_integer q = (if 0 \<le> q then \<lfloor>q\<rfloor> else - \<lfloor>- q\<rfloor>)"

fun Uint32Value :: "double \<Rightarrow> 32 word" where
  "Uint32Value (Fin q) = word_of_int (to_integer q)"
| "Uint32Value _ = 0"

fun DoubleValue :: "double \<Rightarrow> double" where
  "DoubleValue d = d"

text \<open>
  Lines 129 to 139 of \<^verbatim>\<open>Start\<close>: the options the watchdog is built with. The argument
  is the list of the properties of the options object, empty when \<^verbatim>\<open>start\<close> is called
  without one; \<^verbatim>\<open>cb\<close> is taken to be a function.
\<close>

definition Start_options :: "(string \<times> js_value) list \<Rightarrow> Options" where
  "Start_options opts =
     (let interval = Uint32Value (ToNumber (Get opts ''interval''));
          window = Uint32Value (ToNumber (Get opts ''window''));
          threshold = DoubleValue (ToNumber (Get opts ''threshold''))
      in \<lparr>interval = (if interval \<noteq> 0 then interval else 60000),
          window = (if window \<noteq> 0 then window else 30),
          threshold = (if double_to_bool threshold then threshold else Fin 1024)\<rparr>)"

text \<open>
  A \<^verbatim>\<open>Watchdog\<close> object, and the C++ heap as a store from addresses to the objects that
  are alive. \<open>next_free\<close> is the address \<^verbatim>\<open>new\<close> hands out next.
\<close>

record Watchdog =
  wd_running :: bool
  wd_joinable :: bool
  wd_tsfn_aborted :: bool
  wd_opts :: Options
  wd_buf :: "Pt list"

text \<open>
  What a destructor does outside its object, in order: the store to \<^verbatim>\<open>running_\<close>, the
  join of the thread, the abort of the thread-safe function. Each names the address of
  the watchdog.
\<close>

datatype effect = StoreRunningFalse nat | ThreadJoin nat | TsfnAbort nat

record world =
  objects :: "nat \<Rightarrow> Watchdog option"
  next_free :: nat
  log :: "effect list"

definition Watchdog_new :: "Options \<Rightarrow> Watchdog" where
  "Watchdog_new os =
     \<lparr>wd_running = True, wd_joinable = True, wd_tsfn_aborted = False, wd_opts = os, wd_buf = []\<rparr>"

text \<open>\<^verbatim>\<open>~Watchdog\<close>: clear the flag, join the thread if it can be joined, abort the function.\<close>

definition Watchdog_destroy :: "nat \<Rightarrow> Watchdog \<Rightarrow> effect list" where
  "Watchdog_destroy p wd =
     [StoreRunningFalse p] @ (if wd_joinable wd then [ThreadJoin p] else []) @ [TsfnAbort p]"

text \<open>
  \<^verbatim>\<open>delete p\<close>: the destructor runs and the storage is released. Deleting an address
  that holds no live object is undefined behaviour in C++ and is a fault here.
\<close>

definition delete_Watchdog :: "world \<Rightarrow> nat \<Rightarrow> fault + world" where
  "delete_Watchdog w p =
     (case objects w p of
        None \<Rightarrow> Inl (DeleteOfFreed p)
      | Some wd \<Rightarrow> Inr (w\<lparr>objects := (objects w)(p := None),
                          log := log w @ Watchdog_destroy p wd\<rparr>))"

datatype napi_value = Plain js_value | External nat

text \<open>
  \<^verbatim>\<open>Start\<close> allocates the watchdog and returns an external value that holds its address.
  The external value is created with a finalizer, \<^verbatim>\<open>delete p\<close>, which the garbage
  collector runs when the value is collected.
\<close>

definition Start :: "world \<Rightarrow> (string \<times> js_value) list \<Rightarrow> world \<times> napi_value" where
  "Start w opts =
     (let wd = Watchdog_new (Start_options opts);
          p = next_free w
      in (w\<lparr>objects := (objects w)(p \<mapsto> wd), next_free := Suc p\<rparr>, External p))"

definition External_finalizer :: "world \<Rightarrow> nat \<Rightarrow> fault + world" where
  "External_finalizer w p = delete_Watchdog w p"

text \<open>\<^verbatim>\<open>Stop\<close>: the returned value is always \<^verbatim>\<open>undefined\<close>; the result is the heap it leaves.\<close>

fun Stop :: "world \<Rightarrow> napi_value list \<Rightarrow> fault + world" where
  "Stop w (External p # rest) = delete_Watchdog w p"
| "Stop w _ = Inr w"

section \<open>Reference formulas\<close>

text \<open>
  The ordinary-least-squares slope as the specification writes it,
  \<open>(n\<cdot>\<Sum>xy - \<Sum>x\<cdot>\<Sum>y) / (n\<cdot>\<Sum>x\<^sup>2 - (\<Sum>x)\<^sup>2)\<close>, over exact rationals: \<open>x\<close> is the timestamp
  in milliseconds and \<open>y\<close> the bytes value.
\<close>

definition ols_exact :: "(rat \<times> rat) list \<Rightarrow> rat" where
  "ols_exact ps =
     (let n = of_nat (length ps);
          sx = sum_list (map fst ps);
          sy = sum_list (map snd ps);
          sxy = sum_list (map (\<lambda>(x, y). x * y) ps);
          sx2 = sum_list (map (\<lambda>(x, y). x * x) ps)
      in (n * sxy - sx * sy) / (n * sx2 - sx * sx))"


definition exact_sample :: "Pt \<Rightarrow> rat \<times> rat" where
  "exact_sample p = (of_int (t p) / 1000000, of_int (uint (bytes p)))"

definition exact_samples :: "Pt list \<Rightarrow> (rat \<times> rat) list" where
  "exact_samples b = map exact_sample b"

text \<open>
  The same formula evaluated in \<^verbatim>\<open>double\<close> arithmetic: each sum is accumulated from
  \<open>0.0\<close> in window order, every operation is rounded, and a computed denominator that
  compares equal to zero gives \<open>0.0\<close>.
\<close>

definition dsum :: "double list \<Rightarrow> double" where
  "dsum xs = foldl dadd (Fin 0) xs"

definition ols_double :: "double list \<Rightarrow> double list \<Rightarrow> double" where
  "ols_double xs ys =
     (let n = double_of_int (int (length xs));
          sx = dsum xs;
          sy = dsum ys;
          sxy = dsum (map2 dmul xs ys);
          sx2 = dsum (map2 dmul xs xs);
          denom = dsub (dmul n sx2) (dmul sx sx)
      in if deq denom (Fin 0) then Fin 0
         else ddiv (dsub (dmul n sxy) (dmul sx sy)) denom)"

text \<open>
  Windows on which no intermediate result of \<open>slope\<close> is rounded: every timestamp is a
  whole, non-negative number of milliseconds, and the integer sums and products the
  formula forms stay below \<open>2\<^sup>5\<^sup>3\<close>.
\<close>

definition ms_of :: "Pt \<Rightarrow> int" where
  "ms_of p = t p div 1000000"

definition Sx :: "Pt list \<Rightarrow> int" where
  "Sx b = sum_list (map ms_of b)"

definition Sy :: "Pt list \<Rightarrow> int" where
  "Sy b = sum_list (map (\<lambda>p. uint (bytes p)) b)"

definition Sxy :: "Pt list \<Rightarrow> int" where
  "Sxy b = sum_list (map (\<lambda>p. ms_of p * uint (bytes p)) b)"

definition Sx2 :: "Pt list \<Rightarrow> int" where
  "Sx2 b = sum_list (map (\<lambda>p. ms_of p * ms_of p) b)"

definition unrounded :: "Pt list \<Rightarrow> bool" where
  "unrounded b =
     ((\<forall>p \<in> set b. 0 \<le> t p \<and> t p mod 1000000 = 0 \<and> t p < 2 ^ 53)
      \<and> int (length b) < 2 ^ 53
      \<and> int (length b) * Sx2 b < 2 ^ 53
      \<and> int (length b) * Sxy b < 2 ^ 53
      \<and> Sx b * Sy b < 2 ^ 53
      \<and> Sx b * Sx b < 2 ^ 53
      \<and> Sy b < 2 ^ 53)"

definition timestamps_differ :: "Pt list \<Rightarrow> bool" where
  "timestamps_differ b = (\<exists>p \<in> set b. \<exists>q \<in> set b. t p \<noteq> t q)"

text \<open>The samples the loop pushes: one for each iteration that finds \<^verbatim>\<open>running_\<close> set.\<close>

definition sample_of :: "tick \<Rightarrow> Pt" where
  "sample_of e = \<lparr>t = now e, bytes = used_heap_size e\<rparr>"

definition samples_of :: "tick list \<Rightarrow> Pt list" where
  "samples_of ticks = map sample_of (takeWhile running_seen ticks)"

section \<open>Exact arithmetic on small integers\<close>

text \<open>
  An integer below \<open>2\<^sup>5\<^sup>3\<close> in magnitude is a binary64 value, so sums, differences and
  products of such integers that stay below \<open>2\<^sup>5\<^sup>3\<close> are computed without rounding.
\<close>

lemma round_even_of_int: "round_even (of_int m) = m"
  by (simp add: round_even_def)

lemma bitlen_ge_1: "0 < k \<Longrightarrow> 1 \<le> bitlen k"
  using bitlen_nonneg [of "k div 2"] by (subst compute_bitlen) simp

lemma pow2_le_of_int:
  assumes b: "1 \<le> b" and le: "(2::int) ^ nat (b - 1) \<le> \<bar>k\<bar>"
  shows "pow2 (b - 1) \<le> \<bar>of_int k\<bar>"
proof -
  from le have "(of_int (2 ^ nat (b - 1)) :: rat) \<le> of_int \<bar>k\<bar>"
    by (simp only: of_int_le_iff)
  then have "(2 :: rat) ^ nat (b - 1) \<le> \<bar>of_int k\<bar>"
    by (simp only: of_int_power of_int_numeral of_int_abs)
  with b show ?thesis by (simp add: pow2_def)
qed

lemma ilog2_of_int:
  assumes "k \<noteq> 0"
  shows "ilog2 (of_int k) = bitlen \<bar>k\<bar> - 1"
proof -
  have pos: "0 < \<bar>k\<bar>" using assms by simp
  have q: "quotient_of \<bar>of_int k :: rat\<bar> = (\<bar>k\<bar>, 1)"
    by (simp only: of_int_abs [symmetric] quotient_of_rat_of_int)
  have b1: "bitlen 1 = 1" by (subst compute_bitlen) simp
  from bitlen_bounds [OF pos] have "2 ^ nat (bitlen \<bar>k\<bar> - 1) \<le> \<bar>k\<bar>" by simp
  from pow2_le_of_int [OF bitlen_ge_1 [OF pos] this]
  show ?thesis by (simp add: ilog2_def q b1)
qed

lemma exp_bound:
  assumes "(2::int) ^ nat e \<le> a" and "a < 2 ^ 53" and "0 \<le> e"
  shows "e \<le> 52"
proof (rule ccontr)
  assume "\<not> e \<le> 52"
  then have "53 \<le> nat e" by simp
  then have "(2::int) ^ 53 \<le> 2 ^ nat e" by (rule power_increasing) simp
  with assms show False by linarith
qed

lemma scaled_back:
  "of_int (round_even (of_int k / (1 / 2 ^ n))) * (1 / 2 ^ n) = (of_int k :: rat)"
proof -
  have "(of_int k :: rat) / (1 / 2 ^ n) = of_int (k * 2 ^ n)" by simp
  then have "round_even (of_int k / (1 / 2 ^ n)) = k * 2 ^ n"
    by (simp only: round_even_of_int)
  then show ?thesis by simp
qed

lemma rnd_of_int_exact:
  assumes "\<bar>k\<bar> < 2 ^ 53"
  shows "rnd (of_int k) = Fin (of_int k)"
proof (cases "k = 0")
  case True
  then show ?thesis by (simp add: rnd_def)
next
  case False
  then have pos: "0 < \<bar>k\<bar>" by simp
  define e where "e = bitlen \<bar>k\<bar> - 1"
  have e0: "0 \<le> e" using bitlen_ge_1 [OF pos] by (simp add: e_def)
  have lo: "2 ^ nat e \<le> \<bar>k\<bar>" using bitlen_bounds [OF pos] by (simp add: e_def)
  have e52: "e \<le> 52" by (rule exp_bound [OF lo assms e0])
  have il: "ilog2 (of_int k) = e" using ilog2_of_int [OF False] by (simp add: e_def)
  have mx: "max e (- 1022) = e" using e0 by simp
  have ulp: "pow2 (e - 52) = 1 / 2 ^ nat (52 - e)"
    using e52 by (cases "e = 52") (simp_all add: pow2_def)
  have r: "of_int (round_even (of_int k / pow2 (e - 52))) * pow2 (e - 52) = (of_int k :: rat)"
    by (simp only: ulp scaled_back)
  have "\<bar>of_int k :: rat\<bar> = of_int \<bar>k\<bar>" by simp
  also have "\<dots> \<le> of_int (2 ^ 53)" using assms by (simp only: of_int_le_iff)
  also have "\<dots> \<le> DBL_MAX" by (simp add: DBL_MAX_def)
  finally have small: "\<not> DBL_MAX < \<bar>of_int k :: rat\<bar>" by simp
  have nz: "(of_int k :: rat) \<noteq> 0" using False by simp
  show ?thesis
    unfolding rnd_def Let_def il mx r using nz small by simp
qed



lemma dadd_int:
  "\<bar>a + b\<bar> < 2 ^ 53 \<Longrightarrow> dadd (Fin (of_int a)) (Fin (of_int b)) = Fin (of_int (a + b))"
  using rnd_of_int_exact [of "a + b"] by simp

lemma dsub_int:
  "\<bar>a - b\<bar> < 2 ^ 53 \<Longrightarrow> dsub (Fin (of_int a)) (Fin (of_int b)) = Fin (of_int (a - b))"
  using rnd_of_int_exact [of "a - b"] by (simp add: dsub_def)

lemma dmul_int:
  "\<bar>a * b\<bar> < 2 ^ 53 \<Longrightarrow> dmul (Fin (of_int a)) (Fin (of_int b)) = Fin (of_int (a * b))"
  using rnd_of_int_exact [of "a * b"] by simp

lemma double_of_int_exact: "\<bar>k\<bar> < 2 ^ 53 \<Longrightarrow> double_of_int k = Fin (of_int k)"
  by (simp add: double_of_int_def rnd_of_int_exact)

lemma millis_whole:
  assumes "\<bar>x * 1000000\<bar> < 2 ^ 53"
  shows "millis (x * 1000000) = Fin (of_int x)"
proof -
  from assms have x: "\<bar>x\<bar> < 2 ^ 53" by (simp add: abs_mult)
  have "millis (x * 1000000) = ddiv (Fin (of_int (x * 1000000))) (Fin 1000000)"
    by (simp only: millis_def double_of_int_exact [OF assms])
  also have "\<dots> = rnd (of_int x)" by simp
  finally show ?thesis by (simp only: rnd_of_int_exact [OF x])
qed

lemma foldl_dadd_int:
  assumes "\<forall>z \<in> set zs. 0 \<le> z" and "0 \<le> s" and "s + sum_list zs < 2 ^ 53"
  shows "foldl dadd (Fin (of_int s)) (map (\<lambda>z. Fin (of_int z)) zs) = Fin (of_int (s + sum_list zs))"
  using assms
proof (induction zs arbitrary: s)
  case Nil
  then show ?case by simp
next
  case (Cons z zs)
  from Cons.prems have z: "0 \<le> z" and zs: "\<forall>z \<in> set zs. 0 \<le> z" by simp_all
  from zs have nn: "0 \<le> sum_list zs" by (simp add: sum_list_nonneg)
  with Cons.prems z have "\<bar>s + z\<bar> < 2 ^ 53" by simp
  then have step: "dadd (Fin (of_int s)) (Fin (of_int z)) = Fin (of_int (s + z))"
    by (rule dadd_int)
  from Cons.prems z have "0 \<le> s + z" "s + z + sum_list zs < 2 ^ 53" by simp_all
  note ih = Cons.IH [OF zs this]
  have "foldl dadd (Fin (of_int s)) (map (\<lambda>z. Fin (of_int z)) (z # zs))
      = foldl dadd (dadd (Fin (of_int s)) (Fin (of_int z))) (map (\<lambda>z. Fin (of_int z)) zs)"
    by (simp only: list.map foldl_Cons)
  also have "\<dots> = Fin (of_int (s + z + sum_list zs))"
    by (simp only: step ih)
  also have "s + z + sum_list zs = s + sum_list (z # zs)" by simp
  finally show ?case .
qed




lemma member_le_sum_list_int:
  "\<forall>z \<in> set zs. (0::int) \<le> z \<Longrightarrow> z \<in> set zs \<Longrightarrow> z \<le> sum_list zs"
proof (induction zs)
  case Nil
  then show ?case by simp
next
  case (Cons a zs)
  then have "0 \<le> sum_list zs" by (simp add: sum_list_nonneg)
  with Cons show ?case by auto
qed

lemma dsum_int:
  assumes "\<forall>p \<in> set b. 0 \<le> f p" and "sum_list (map f b) < 2 ^ 53"
  shows "dsum (map (\<lambda>p. Fin (of_int (f p))) b) = Fin (of_int (sum_list (map f b)))"
proof -
  have nn: "\<forall>z \<in> set (map f b). 0 \<le> z" using assms(1) by simp
  have "dsum (map (\<lambda>p. Fin (of_int (f p))) b)
      = foldl dadd (Fin (of_int 0)) (map (\<lambda>z. Fin (of_int z)) (map f b))"
    by (simp add: dsum_def comp_def)
  also have "\<dots> = Fin (of_int (0 + sum_list (map f b)))"
    using nn assms(2) by (intro foldl_dadd_int) simp_all
  finally show ?thesis by simp
qed

lemma term_le_sum:
  assumes "\<forall>p \<in> set b. (0::int) \<le> f p" and "p \<in> set b"
  shows "f p \<le> sum_list (map f b)"
  using member_le_sum_list_int [of "map f b" "f p"] assms by simp

section \<open>The slope\<close>

lemma slope_short: "length b < 3 \<Longrightarrow> slope b = Inr (Fin 0)"
  by (simp add: slope_def)

lemma slope_unfold:
  "slope b =
     (if length b < 3 \<or> deq (slope_denom b) (Fin 0) then Inr (Fin 0)
      else case slope_sums b of (sx, sy, sxy, sx2) \<Rightarrow>
        Inr (ddiv (dsub (dmul (double_of_int (int (length b))) sxy) (dmul sx sy))
                  (slope_denom b)))"
  by (simp add: slope_def slope_denom_def checked_div_def Let_def split: prod.splits)

lemma slope_total: "\<exists>sl. slope b = Inr sl"
  by (simp add: slope_unfold split: prod.splits)

text \<open>
  C7. For every window that holds fewer than three samples, \<open>slope\<close> returns exactly
  \<open>0.0\<close>.
\<close>

theorem slope_fewer_than_three_is_zero:
  "length b < 3 \<Longrightarrow> slope b = Inr (Fin 0)"
  by (rule slope_short)

theorem slope_fewer_than_three_is_zero_witness:
  "length [\<lparr>t = 0, bytes = 100\<rparr>, \<lparr>t = 1000000, bytes = 200\<rparr>] < 3
   \<and> slope [\<lparr>t = 0, bytes = 100\<rparr>, \<lparr>t = 1000000, bytes = 200\<rparr>] = Inr (Fin 0)"
proof -
  have h: "length [\<lparr>t = 0, bytes = 100\<rparr>, \<lparr>t = 1000000, bytes = (200 :: 64 word)\<rparr>] < 3"
    by simp
  from h slope_fewer_than_three_is_zero [OF h] show ?thesis
    by simp
qed

lemma map2_map_map: "map2 f (map g b) (map h b) = map (\<lambda>p. f (g p) (h p)) b"
  by (induction b) simp_all

lemma foldl_slope_step:
  "foldl slope_step (sx, sy, sxy, sx2) b =
     (foldl dadd sx (map sample_x b),
      foldl dadd sy (map sample_y b),
      foldl dadd sxy (map (\<lambda>p. dmul (sample_x p) (sample_y p)) b),
      foldl dadd sx2 (map (\<lambda>p. dmul (sample_x p) (sample_x p)) b))"
proof (induction b arbitrary: sx sy sxy sx2)
  case Nil
  show ?case by simp
next
  case (Cons p b)
  have step: "slope_step (sx, sy, sxy, sx2) p =
      (dadd sx (sample_x p), dadd sy (sample_y p),
       dadd sxy (dmul (sample_x p) (sample_y p)), dadd sx2 (dmul (sample_x p) (sample_x p)))"
    by (simp add: slope_step_def Let_def)
  show ?case by (simp add: step Cons.IH)
qed

lemma slope_sums_dsum:
  "slope_sums b =
     (dsum (map sample_x b), dsum (map sample_y b),
      dsum (map2 dmul (map sample_x b) (map sample_y b)),
      dsum (map2 dmul (map sample_x b) (map sample_x b)))"
  by (simp only: slope_sums_def dsum_def foldl_slope_step map2_map_map)

lemma of_int_sum_list_map: "(of_int (sum_list (map f b)) :: rat) = sum_list (map (\<lambda>p. of_int (f p)) b)"
  by (induction b) simp_all

lemma self_le_square: "(0::int) \<le> x \<Longrightarrow> x \<le> x * x"
  by (cases "x = 0") (simp_all add: mult_le_cancel_left1)

lemma diff_small:
  "(0::int) \<le> a \<Longrightarrow> a < c \<Longrightarrow> 0 \<le> b \<Longrightarrow> b < c \<Longrightarrow> \<bar>a - b\<bar> < c"
  by linarith

lemma unrounded_sums:
  assumes u: "unrounded b" and len: "3 \<le> length b"
  shows "slope_sums b = (Fin (of_int (Sx b)), Fin (of_int (Sy b)),
                         Fin (of_int (Sxy b)), Fin (of_int (Sx2 b)))"
    and "0 \<le> Sx b" "0 \<le> Sy b" "0 \<le> Sxy b" "0 \<le> Sx2 b"
    and "map exact_sample b = map (\<lambda>p. (of_int (ms_of p), of_int (uint (bytes p)))) b"
proof -
  from u have tp: "\<And>p. p \<in> set b \<Longrightarrow> 0 \<le> t p \<and> t p mod 1000000 = 0 \<and> t p < 2 ^ 53"
    and bxy: "int (length b) * Sxy b < 2 ^ 53"
    and bx2: "int (length b) * Sx2 b < 2 ^ 53"
    and bsy: "Sy b < 2 ^ 53"
    by (simp_all add: unrounded_def)
  have tx: "t p = ms_of p * 1000000" if "p \<in> set b" for p
    using tp [OF that] div_mult_mod_eq [of "t p" 1000000] by (simp add: ms_of_def)
  have x0: "\<forall>p \<in> set b. 0 \<le> ms_of p"
    using tp by (simp add: ms_of_def pos_imp_zdiv_nonneg_iff)
  have y0: "\<forall>p \<in> set b. 0 \<le> uint (bytes p)" by simp
  have xy0: "\<forall>p \<in> set b. 0 \<le> ms_of p * uint (bytes p)" using x0 by simp
  have xx0: "\<forall>p \<in> set b. 0 \<le> ms_of p * ms_of p" by simp
  show nx: "0 \<le> Sx b" unfolding Sx_def using x0 by (intro sum_list_nonneg) auto
  show ny: "0 \<le> Sy b" unfolding Sy_def by (intro sum_list_nonneg) auto
  show nxy: "0 \<le> Sxy b" unfolding Sxy_def using xy0 by (intro sum_list_nonneg) auto
  show nx2: "0 \<le> Sx2 b" unfolding Sx2_def by (intro sum_list_nonneg) auto
  from len have n1: "1 \<le> int (length b)" by simp
  have "Sxy b \<le> int (length b) * Sxy b" using n1 nxy by (simp add: mult_le_cancel_right1)
  with bxy have sxy: "Sxy b < 2 ^ 53" by linarith
  have "Sx2 b \<le> int (length b) * Sx2 b" using n1 nx2 by (simp add: mult_le_cancel_right1)
  with bx2 have sx2: "Sx2 b < 2 ^ 53" by linarith
  have "Sx b \<le> Sx2 b" unfolding Sx_def Sx2_def
    using x0 by (intro sum_list_mono) (simp add: self_le_square)
  with sx2 have sx: "Sx b < 2 ^ 53" by linarith
  have X: "sample_x p = Fin (of_int (ms_of p))" if "p \<in> set b" for p
  proof -
    from tp [OF that] tx [OF that] have "\<bar>ms_of p * 1000000\<bar> < 2 ^ 53" by simp
    from millis_whole [OF this] show ?thesis by (simp add: sample_x_def tx [OF that])
  qed
  have Y: "sample_y p = Fin (of_int (uint (bytes p)))" if "p \<in> set b" for p
  proof -
    have "uint (bytes p) \<le> Sy b" unfolding Sy_def using y0 that by (rule term_le_sum)
    with bsy have "\<bar>uint (bytes p)\<bar> < 2 ^ 53" by simp
    then show ?thesis by (simp add: sample_y_def double_of_int_exact)
  qed
  have XY: "dmul (sample_x p) (sample_y p) = Fin (of_int (ms_of p * uint (bytes p)))"
    if "p \<in> set b" for p
  proof -
    have "ms_of p * uint (bytes p) \<le> Sxy b" unfolding Sxy_def using xy0 that by (rule term_le_sum)
    with sxy xy0 that have "\<bar>ms_of p * uint (bytes p)\<bar> < 2 ^ 53" by simp
    from dmul_int [OF this] show ?thesis by (simp only: X [OF that] Y [OF that])
  qed
  have XX: "dmul (sample_x p) (sample_x p) = Fin (of_int (ms_of p * ms_of p))"
    if "p \<in> set b" for p
  proof -
    have "ms_of p * ms_of p \<le> Sx2 b" unfolding Sx2_def using xx0 that by (rule term_le_sum)
    with sx2 have "\<bar>ms_of p * ms_of p\<bar> < 2 ^ 53" by simp
    from dmul_int [OF this] show ?thesis by (simp only: X [OF that])
  qed
  have mx: "map sample_x b = map (\<lambda>p. Fin (of_int (ms_of p))) b"
    using X by (simp cong: map_cong)
  have my: "map sample_y b = map (\<lambda>p. Fin (of_int (uint (bytes p)))) b"
    using Y by (simp cong: map_cong)
  have mxy: "map (\<lambda>p. dmul (sample_x p) (sample_y p)) b
      = map (\<lambda>p. Fin (of_int (ms_of p * uint (bytes p)))) b"
    using XY by (simp cong: map_cong)
  have mxx: "map (\<lambda>p. dmul (sample_x p) (sample_x p)) b
      = map (\<lambda>p. Fin (of_int (ms_of p * ms_of p))) b"
    using XX by (simp cong: map_cong)
  have d1: "dsum (map sample_x b) = Fin (of_int (Sx b))"
    unfolding mx Sx_def using x0 sx [unfolded Sx_def] by (rule dsum_int)
  have d2: "dsum (map sample_y b) = Fin (of_int (Sy b))"
    unfolding my Sy_def using y0 bsy [unfolded Sy_def] by (rule dsum_int)
  have d3: "dsum (map (\<lambda>p. dmul (sample_x p) (sample_y p)) b) = Fin (of_int (Sxy b))"
    unfolding mxy Sxy_def using xy0 sxy [unfolded Sxy_def] by (rule dsum_int)
  have d4: "dsum (map (\<lambda>p. dmul (sample_x p) (sample_x p)) b) = Fin (of_int (Sx2 b))"
    unfolding mxx Sx2_def using xx0 sx2 [unfolded Sx2_def] by (rule dsum_int)
  show "slope_sums b = (Fin (of_int (Sx b)), Fin (of_int (Sy b)),
                        Fin (of_int (Sxy b)), Fin (of_int (Sx2 b)))"
    by (simp only: slope_sums_dsum map2_map_map d1 d2 d3 d4)
  have "exact_sample p = (of_int (ms_of p), of_int (uint (bytes p)))" if "p \<in> set b" for p
    by (simp add: exact_sample_def tx [OF that])
  then show "map exact_sample b = map (\<lambda>p. (of_int (ms_of p), of_int (uint (bytes p)))) b"
    by (simp cong: map_cong)
qed




lemma ols_exact_unrounded:
  assumes "map exact_sample b = map (\<lambda>p. (of_int (ms_of p), of_int (uint (bytes p)))) b"
  shows "ols_exact (exact_samples b)
     = of_int (int (length b) * Sxy b - Sx b * Sy b)
       / of_int (int (length b) * Sx2 b - Sx b * Sx b)"
  by (simp add: ols_exact_def exact_samples_def assms comp_def Sx_def Sy_def Sxy_def Sx2_def
      of_int_sum_list_map Let_def)

lemma slope_unrounded:
  assumes len: "3 \<le> length b" and u: "unrounded b"
  shows "slope b = Inr (if int (length b) * Sx2 b = Sx b * Sx b then Fin 0
                        else rnd (ols_exact (exact_samples b)))"
proof -
  note S = unrounded_sums [OF u len]
  define n where "n = int (length b)"
  from u have bn: "n < 2 ^ 53" and bx2: "n * Sx2 b < 2 ^ 53" and bxy: "n * Sxy b < 2 ^ 53"
    and bxsy: "Sx b * Sy b < 2 ^ 53" and bxx: "Sx b * Sx b < 2 ^ 53"
    by (simp_all add: unrounded_def n_def)
  have n0: "0 \<le> n" by (simp add: n_def)
  have dn: "double_of_int n = Fin (of_int n)"
    using bn n0 by (intro double_of_int_exact) simp
  have p1: "0 \<le> n * Sx2 b" using n0 S(5) by simp
  have p2: "0 \<le> Sx b * Sx b" by simp
  have p3: "0 \<le> n * Sxy b" using n0 S(4) by simp
  have p4: "0 \<le> Sx b * Sy b" using S(2,3) by simp
  have m1: "dmul (Fin (of_int n)) (Fin (of_int (Sx2 b))) = Fin (of_int (n * Sx2 b))"
    using p1 bx2 by (intro dmul_int) simp
  have m2: "dmul (Fin (of_int (Sx b))) (Fin (of_int (Sx b))) = Fin (of_int (Sx b * Sx b))"
    using p2 bxx by (intro dmul_int) simp
  have m3: "dmul (Fin (of_int n)) (Fin (of_int (Sxy b))) = Fin (of_int (n * Sxy b))"
    using p3 bxy by (intro dmul_int) simp
  have m4: "dmul (Fin (of_int (Sx b))) (Fin (of_int (Sy b))) = Fin (of_int (Sx b * Sy b))"
    using p4 bxsy by (intro dmul_int) simp
  have den: "dsub (Fin (of_int (n * Sx2 b))) (Fin (of_int (Sx b * Sx b)))
      = Fin (of_int (n * Sx2 b - Sx b * Sx b))"
    by (intro dsub_int diff_small p1 p2 bx2 bxx)
  have num: "dsub (Fin (of_int (n * Sxy b))) (Fin (of_int (Sx b * Sy b)))
      = Fin (of_int (n * Sxy b - Sx b * Sy b))"
    by (intro dsub_int diff_small p3 p4 bxy bxsy)
  have ex: "ols_exact (exact_samples b)
      = of_int (n * Sxy b - Sx b * Sy b) / of_int (n * Sx2 b - Sx b * Sx b)"
    unfolding n_def by (rule ols_exact_unrounded [OF S(6)])
  have "slope b =
      (if deq (Fin (of_int (n * Sx2 b - Sx b * Sx b))) (Fin 0) then Inr (Fin 0)
       else checked_div (Fin (of_int (n * Sxy b - Sx b * Sy b)))
                        (Fin (of_int (n * Sx2 b - Sx b * Sx b))))"
    using len
    by (simp only: slope_def S(1) Let_def prod.case n_def [symmetric] dn m1 m2 m3 m4 den num)
       simp
  also have "\<dots> = Inr (if n * Sx2 b = Sx b * Sx b then Fin 0
                        else rnd (ols_exact (exact_samples b)))"
  proof (cases "n * Sx2 b = Sx b * Sx b")
    case True
    then show ?thesis by simp
  next
    case False
    then have "n * Sx2 b - Sx b * Sx b \<noteq> 0" by simp
    then have nz: "(of_int (n * Sx2 b - Sx b * Sx b) :: rat) \<noteq> 0"
      by (simp only: of_int_eq_0_iff not_False_eq_True)
    from False nz show ?thesis
      by (simp only: deq.simps checked_div_def ddiv.simps ex if_False)
  qed
  finally show ?thesis by (simp only: n_def)
qed

lemma sum_scaled_deviations:
  "sum_list (map (\<lambda>p. (c * f p - s) * (c * f p - s)) b)
     = c * c * sum_list (map (\<lambda>p. f p * f p) b) - 2 * c * s * sum_list (map f b)
       + int (length b) * (s * s)" for c s :: int
  by (induction b) (simp_all add: algebra_simps)

lemma zero_denominator_same_ms:
  assumes "int (length b) * Sx2 b = Sx b * Sx b" and "p \<in> set b" and "q \<in> set b"
  shows "ms_of p = ms_of q"
proof -
  define n where "n = int (length b)"
  from assms(2) have n: "0 < n" by (cases b) (simp_all add: n_def)
  have "sum_list (map (\<lambda>p. (n * ms_of p - Sx b) * (n * ms_of p - Sx b)) b)
      = n * (n * Sx2 b) - 2 * n * Sx b * Sx b + n * (Sx b * Sx b)"
    by (simp add: sum_scaled_deviations n_def Sx2_def Sx_def [symmetric])
  also have "\<dots> = 0" using assms(1) by (simp add: n_def)
  finally have z: "sum_list (map (\<lambda>p. (n * ms_of p - Sx b) * (n * ms_of p - Sx b)) b) = 0" .
  have "\<forall>v \<in> set (map (\<lambda>p. (n * ms_of p - Sx b) * (n * ms_of p - Sx b)) b). v = 0"
    using z by (subst (asm) sum_list_nonneg_eq_0_iff) auto
  then have all: "\<forall>p \<in> set b. n * ms_of p = Sx b" by simp
  from all assms(2,3) have "n * ms_of p = n * ms_of q" by simp
  with n show ?thesis by simp
qed

lemma unrounded_zero_denominator:
  assumes "unrounded b" and "int (length b) * Sx2 b = Sx b * Sx b"
    and "p \<in> set b" and "q \<in> set b"
  shows "t p = t q"
proof -
  have tx: "t r = ms_of r * 1000000" if "r \<in> set b" for r
    using assms(1) that div_mult_mod_eq [of "t r" 1000000]
    by (simp add: unrounded_def ms_of_def)
  from zero_denominator_same_ms [OF assms(2-4)] tx [OF assms(3)] tx [OF assms(4)]
  show ?thesis by simp
qed

lemma slope_is_ols_double:
  "3 \<le> length b \<Longrightarrow> slope b = Inr (ols_double (map sample_x b) (map sample_y b))"
  by (simp add: slope_def slope_sums_dsum ols_double_def checked_div_def Let_def)

lemma slope_unrounded_differ:
  assumes "3 \<le> length b" and "unrounded b" and "timestamps_differ b"
  shows "slope b = Inr (rnd (ols_exact (exact_samples b)))"
proof -
  from assms(3) obtain p q where pq: "p \<in> set b" "q \<in> set b" "t p \<noteq> t q"
    by (auto simp: timestamps_differ_def)
  have "int (length b) * Sx2 b \<noteq> Sx b * Sx b"
    using unrounded_zero_denominator [OF assms(2) _ pq(1,2)] pq(3) by blast
  with slope_unrounded [OF assms(1,2)] show ?thesis by simp
qed

text \<open>
  C4, as the code has it. For every window of at least three samples, \<open>slope\<close> is the
  least-squares formula \<open>(n\<cdot>\<Sum>xy - \<Sum>x\<cdot>\<Sum>y) / (n\<cdot>\<Sum>x\<^sup>2 - (\<Sum>x)\<^sup>2)\<close> evaluated in \<^verbatim>\<open>double\<close>
  arithmetic, with \<open>x\<close> the timestamp in milliseconds and \<open>y\<close> the bytes value, the four
  sums accumulated in window order, and \<open>0.0\<close> when the computed denominator is zero.
  When no intermediate result is rounded (\<open>unrounded\<close>) and the timestamps are not all
  identical, this is the exact least-squares value rounded once to the nearest
  \<^verbatim>\<open>double\<close>. For the samples \<open>(0 ms, 100)\<close>, \<open>(1 ms, 200)\<close>, \<open>(2 ms, 300)\<close> it is \<open>100.0\<close>.
\<close>

theorem slope_is_double_least_squares:
  assumes "3 \<le> length b"
  shows "slope b = Inr (ols_double (map sample_x b) (map sample_y b))
    \<and> (unrounded b \<and> timestamps_differ b
         \<longrightarrow> slope b = Inr (rnd (ols_exact (exact_samples b))))"
  using slope_is_ols_double [OF assms] slope_unrounded_differ [OF assms] by blast

theorem slope_is_double_least_squares_witness:
  "3 \<le> length [\<lparr>t = 0, bytes = 100\<rparr>, \<lparr>t = 1000000, bytes = 200\<rparr>, \<lparr>t = 2000000, bytes = 300\<rparr>]
   \<and> unrounded [\<lparr>t = 0, bytes = 100\<rparr>, \<lparr>t = 1000000, bytes = 200\<rparr>, \<lparr>t = 2000000, bytes = 300\<rparr>]
   \<and> timestamps_differ
        [\<lparr>t = 0, bytes = 100\<rparr>, \<lparr>t = 1000000, bytes = 200\<rparr>, \<lparr>t = 2000000, bytes = 300\<rparr>]
   \<and> ols_exact (exact_samples
        [\<lparr>t = 0, bytes = 100\<rparr>, \<lparr>t = 1000000, bytes = 200\<rparr>, \<lparr>t = 2000000, bytes = 300\<rparr>])
       = 100
   \<and> slope [\<lparr>t = 0, bytes = 100\<rparr>, \<lparr>t = 1000000, bytes = 200\<rparr>, \<lparr>t = 2000000, bytes = 300\<rparr>]
       = Inr (Fin 100)"
proof -
  let ?b = "[\<lparr>t = 0, bytes = 100\<rparr>, \<lparr>t = 1000000, bytes = 200\<rparr>,
             \<lparr>t = 2000000, bytes = (300 :: 64 word)\<rparr>]"
  have h: "3 \<le> length ?b" by simp
  have u: "unrounded ?b"
    by (simp add: unrounded_def Sx_def Sy_def Sxy_def Sx2_def ms_of_def)
  have d: "timestamps_differ ?b"
    unfolding timestamps_differ_def
    by (intro bexI [of _ "\<lparr>t = 0, bytes = 100\<rparr>"] bexI [of _ "\<lparr>t = 1000000, bytes = 200\<rparr>"])
       simp_all
  have e: "ols_exact (exact_samples ?b) = 100"
    by (simp add: ols_exact_def exact_samples_def exact_sample_def)
  have r: "rnd 100 = Fin 100" using rnd_of_int_exact [of 100] by simp
  from slope_is_double_least_squares [OF h] u d
  have "slope ?b = Inr (rnd (ols_exact (exact_samples ?b)))" by blast
  with h u d e r show ?thesis by simp
qed

text \<open>
  C4, as the specification states it, fails. Three samples one millisecond apart, taken
  \<open>2\<^sup>2\<^sup>7\<close> ms (about 37 hours) after the steady clock's epoch, with 100, 200 and 300
  bytes: the timestamps differ and the exact least-squares slope is 100, but the squares
  of the timestamps exceed \<open>2\<^sup>5\<^sup>3\<close>, the computed denominator rounds to zero and \<open>slope\<close>
  returns \<open>0.0\<close>.
\<close>

theorem slope_not_exact_least_squares:
  "length [\<lparr>t = 134217728000000, bytes = 100\<rparr>, \<lparr>t = 134217729000000, bytes = 200\<rparr>,
           \<lparr>t = 134217730000000, bytes = 300\<rparr>] = 3
   \<and> (134217728000000 :: int) \<noteq> 134217729000000
   \<and> ols_exact (exact_samples
        [\<lparr>t = 134217728000000, bytes = 100\<rparr>, \<lparr>t = 134217729000000, bytes = 200\<rparr>,
         \<lparr>t = 134217730000000, bytes = 300\<rparr>]) = 100
   \<and> slope [\<lparr>t = 134217728000000, bytes = 100\<rparr>, \<lparr>t = 134217729000000, bytes = 200\<rparr>,
            \<lparr>t = 134217730000000, bytes = 300\<rparr>] = Inr (Fin 0)
   \<and> slope [\<lparr>t = 134217728000000, bytes = 100\<rparr>, \<lparr>t = 134217729000000, bytes = 200\<rparr>,
            \<lparr>t = 134217730000000, bytes = 300\<rparr>]
       \<noteq> Inr (Fin (ols_exact (exact_samples
            [\<lparr>t = 134217728000000, bytes = 100\<rparr>, \<lparr>t = 134217729000000, bytes = 200\<rparr>,
             \<lparr>t = 134217730000000, bytes = 300\<rparr>])))"
proof -
  let ?b = "[\<lparr>t = 134217728000000, bytes = 100\<rparr>, \<lparr>t = 134217729000000, bytes = 200\<rparr>,
             \<lparr>t = 134217730000000, bytes = (300 :: 64 word)\<rparr>]"
  have e: "ols_exact (exact_samples ?b) = 100"
    by (simp add: ols_exact_def exact_samples_def exact_sample_def)
  have s: "slope ?b = Inr (Fin 0)" by code_simp
  from e s show ?thesis by simp
qed











section \<open>Snapshot capture\<close>

lemma DumpSnapshot_result: "fst (DumpSnapshot opens snap) = opens"
  by (simp add: DumpSnapshot_def ofstream_open_def Let_def)

lemma FileStream_all_rejected:
  "\<forall>c \<in> set snap. \<not> snd c \<Longrightarrow>
   Serialize FileStream_WriteAsciiChunk FileStream_EndOfStream f snap =
     (if snap = [] then f else f\<lparr>good := False\<rparr>)"
proof (induction snap arbitrary: f)
  case Nil
  show ?case by (simp add: FileStream_EndOfStream_def)
next
  case (Cons c snap)
  obtain d a where c: "c = (d, a)" by (cases c)
  from Cons.prems c have a: "\<not> a" by simp
  from Cons.prems have rest: "\<forall>c \<in> set snap. \<not> snd c" by simp
  have step: "FileStream_WriteAsciiChunk f a d = (f\<lparr>good := False\<rparr>, kContinue)"
    by (simp add: a FileStream_WriteAsciiChunk_def ofstream_write_def)
  show ?case
    by (simp add: c step Cons.IH [OF rest])
qed

text \<open>
  C10. \<open>DumpSnapshot\<close> reports failure exactly when the output file cannot be opened.
  Once the file is open it returns \<^verbatim>\<open>true\<close> whatever happens to the writes: if the device
  rejects every chunk of a non-empty snapshot, nothing reaches the file, the stream is
  left failed, and the result is still \<^verbatim>\<open>true\<close>. \<open>HeapSnapshotWriter::write\<close> likewise
  returns \<^verbatim>\<open>true\<close> once its file is open; it also fails, before opening anything, when
  there is no current isolate.
\<close>

theorem capture_fails_only_on_open:
  "fst (DumpSnapshot opens snap) = opens
   \<and> fst (HeapSnapshotWriter_write isolate opens snap) = (isolate \<and> opens)
   \<and> ((\<forall>c \<in> set snap. \<not> snd c) \<and> snap \<noteq> [] \<longrightarrow>
        DumpSnapshot True snap = (True, \<lparr>is_open = True, good = False, written = []\<rparr>))"
proof -
  have w: "fst (HeapSnapshotWriter_write isolate opens snap) = (isolate \<and> opens)"
    by (simp add: HeapSnapshotWriter_write_def isValid_def ofstream_open_def Let_def)
  have r: "(\<forall>c \<in> set snap. \<not> snd c) \<and> snap \<noteq> [] \<longrightarrow>
        DumpSnapshot True snap = (True, \<lparr>is_open = True, good = False, written = []\<rparr>)"
    by (simp add: DumpSnapshot_def ofstream_open_def Let_def FileStream_all_rejected)
  from DumpSnapshot_result w r show ?thesis by blast
qed

theorem capture_fails_only_on_open_witness:
  "\<not> snd (''{\"snapshot\":'', False) \<and> \<not> snd (''{}}'', False)
   \<and> DumpSnapshot True [(''{\"snapshot\":'', False), (''{}}'', False)]
       = (True, \<lparr>is_open = True, good = False, written = []\<rparr>)"
proof -
  have h: "(\<forall>c \<in> set [(''{\"snapshot\":'', False), (''{}}'', False)]. \<not> snd c)
           \<and> [(''{\"snapshot\":'', False), (''{}}'', False)] \<noteq> []"
    by simp
  from h capture_fails_only_on_open
         [of True "[(''{\"snapshot\":'', False), (''{}}'', False)]" True]
  show ?thesis by simp
qed

section \<open>The trend window\<close>

lemma push_sample_full:
  assumes "w \<noteq> 0" and "length b = unat w"
  shows "push_sample w b p = tl b @ [p]"
proof -
  from assms have "b \<noteq> []" by (auto simp: unat_eq_0)
  with assms show ?thesis by (simp add: push_sample_def Let_def)
qed

lemma length_push_sample:
  "length b \<le> unat w \<Longrightarrow> length (push_sample w b p) \<le> unat w"
  by (simp add: push_sample_def Let_def)

lemma foldl_push_sample:
  "length b \<le> unat w \<Longrightarrow>
   foldl (push_sample w) b ps = drop (length b + length ps - unat w) (b @ ps)"
proof (induction ps arbitrary: b)
  case Nil
  then show ?case by simp
next
  case (Cons p ps)
  show ?case
  proof (cases "length b < unat w")
    case True
    then have push: "push_sample w b p = b @ [p]"
      by (simp add: push_sample_def Let_def)
    from True have "length (b @ [p]) \<le> unat w" by simp
    from Cons.IH [OF this] show ?thesis by (simp add: push)
  next
    case False
    with Cons.prems have full: "length b = unat w" by simp
    then have push: "push_sample w b p = tl (b @ [p])"
      by (simp add: push_sample_def Let_def)
    have len: "length (tl (b @ [p])) = unat w" using full by simp
    have shift: "drop (Suc (length ps)) (b @ p # ps) = drop (length ps) (tl (b @ [p]) @ ps)"
      by (cases b) simp_all
    have "foldl (push_sample w) b (p # ps) = foldl (push_sample w) (tl (b @ [p])) ps"
      by (simp add: push)
    also have "\<dots> = drop (length (tl (b @ [p])) + length ps - unat w) (tl (b @ [p]) @ ps)"
      using len by (intro Cons.IH) simp
    also have "\<dots> = drop (length ps) (tl (b @ [p]) @ ps)"
      by (simp only: len) simp
    also have "\<dots> = drop (Suc (length ps)) (b @ p # ps)"
      by (simp only: shift)
    also have "Suc (length ps) = length b + length (p # ps) - unat w"
      using full by simp
    finally show ?thesis .
  qed
qed

section \<open>One cycle and the loop\<close>

lemma deq_imp_dge: "deq a b \<Longrightarrow> dge a b"
  by (cases a; cases b) simp_all

lemma cycle_unfold:
  assumes "slope (push_sample (window os) b (sample_of e)) = Inr sl"
  shows "cycle os b e =
     Inr (push_sample (window os) b (sample_of e),
          if dge sl (threshold os)
          then (if file_opens e
                then [Capture (snapshot_name (wall_time e)) True,
                      BlockingCall sl (snapshot_name (wall_time e))]
                else [Capture (snapshot_name (wall_time e)) False])
          else [])"
  using assms by (simp add: cycle_def sample_of_def Let_def DumpSnapshot_result)

lemma cycle_total:
  "\<exists>evs. cycle os b e = Inr (push_sample (window os) b (sample_of e), evs)"
proof -
  obtain sl where "slope (push_sample (window os) b (sample_of e)) = Inr sl"
    using slope_total by blast
  from cycle_unfold [OF this] show ?thesis by blast
qed

lemma loop_total:
  "\<exists>r. loop os b ticks = Inr r
       \<and> final_buf r = foldl (push_sample (window os)) b (samples_of ticks)"
proof (induction ticks arbitrary: b)
  case Nil
  show ?case by (simp add: samples_of_def)
next
  case (Cons e ticks)
  show ?case
  proof (cases "running_seen e")
    case False
    then show ?thesis by (simp add: samples_of_def)
  next
    case True
    obtain evs where c: "cycle os b e = Inr (push_sample (window os) b (sample_of e), evs)"
      using cycle_total by blast
    obtain r where r: "loop os (push_sample (window os) b (sample_of e)) ticks = Inr r"
      and f: "final_buf r = foldl (push_sample (window os))
                (push_sample (window os) b (sample_of e)) (samples_of ticks)"
      using Cons.IH by blast
    from True c r f show ?thesis by (simp add: samples_of_def)
  qed
qed

lemma Start_window_nonzero: "window (Start_options js) \<noteq> 0"
  by (simp add: Start_options_def Let_def)

text \<open>
  C5. For a watchdog built by \<open>Start\<close>, whose window therefore is at least 1: after any
  number of iterations of the loop the buffer holds at most \<open>window\<close> samples, namely the
  last \<open>window\<close> samples pushed, in order. After \<open>window + 1\<close> pushes its size is \<open>window\<close>,
  the first sample pushed is gone and the last one is there. A push onto a buffer that
  holds \<open>window\<close> samples removes exactly the oldest and appends the new one.
\<close>

theorem trend_window_is_bounded_fifo:
  "\<exists>r. loop (Start_options js) [] ticks = Inr r
     \<and> length (final_buf r) \<le> unat (window (Start_options js))
     \<and> final_buf r = drop (length (samples_of ticks) - unat (window (Start_options js)))
                          (samples_of ticks)
     \<and> (length (samples_of ticks) = unat (window (Start_options js)) + 1 \<longrightarrow>
          length (final_buf r) = unat (window (Start_options js))
          \<and> final_buf r = tl (samples_of ticks)
          \<and> last (samples_of ticks) \<in> set (final_buf r))
     \<and> (length b = unat (window (Start_options js)) \<longrightarrow>
          push_sample (window (Start_options js)) b p = tl b @ [p])"
proof -
  let ?w = "window (Start_options js)"
  let ?ps = "samples_of ticks"
  obtain r where r: "loop (Start_options js) [] ticks = Inr r"
    and f: "final_buf r = foldl (push_sample ?w) [] ?ps"
    using loop_total by blast
  have w: "0 < unat ?w"
    using Start_window_nonzero [of js] by (simp add: unat_gt_0)
  from f have d: "final_buf r = drop (length ?ps - unat ?w) ?ps"
    by (simp add: foldl_push_sample)
  then have l: "length (final_buf r) \<le> unat ?w" by simp
  have full: "length ?ps = unat ?w + 1 \<longrightarrow>
      length (final_buf r) = unat ?w \<and> final_buf r = tl ?ps \<and> last ?ps \<in> set (final_buf r)"
  proof
    assume n: "length ?ps = unat ?w + 1"
    with d have t: "final_buf r = tl ?ps" by (simp add: drop_Suc)
    from n w have "tl ?ps \<noteq> []" by (cases ?ps) auto
    then have "last ?ps \<in> set (tl ?ps)"
      by (metis last_in_set last_tl list.sel(2))
    with t n show "length (final_buf r) = unat ?w \<and> final_buf r = tl ?ps
        \<and> last ?ps \<in> set (final_buf r)"
      by simp
  qed
  have push: "length b = unat ?w \<longrightarrow> push_sample ?w b p = tl b @ [p]"
    using push_sample_full [OF Start_window_nonzero] by blast
  from r l d full push show ?thesis by blast
qed

theorem trend_window_is_bounded_fifo_witness:
  "length (samples_of
      [\<lparr>running_seen = True, now = 0, used_heap_size = 100, wall_time = 0,
         file_opens = True, heap_snapshot = []\<rparr>,
       \<lparr>running_seen = True, now = 1000000, used_heap_size = 200, wall_time = 0,
         file_opens = True, heap_snapshot = []\<rparr>,
       \<lparr>running_seen = True, now = 2000000, used_heap_size = 300, wall_time = 0,
         file_opens = True, heap_snapshot = []\<rparr>])
     = unat (window (Start_options [(''window'', Number (Fin 2))])) + 1
   \<and> (\<exists>r. loop (Start_options [(''window'', Number (Fin 2))]) []
      [\<lparr>running_seen = True, now = 0, used_heap_size = 100, wall_time = 0,
         file_opens = True, heap_snapshot = []\<rparr>,
       \<lparr>running_seen = True, now = 1000000, used_heap_size = 200, wall_time = 0,
         file_opens = True, heap_snapshot = []\<rparr>,
       \<lparr>running_seen = True, now = 2000000, used_heap_size = 300, wall_time = 0,
         file_opens = True, heap_snapshot = []\<rparr>] = Inr r
      \<and> final_buf r = [\<lparr>t = 1000000, bytes = 200\<rparr>, \<lparr>t = 2000000, bytes = 300\<rparr>])"
proof -
  let ?js = "[(''window'', Number (Fin 2))]"
  let ?ticks = "[\<lparr>running_seen = True, now = 0, used_heap_size = 100, wall_time = 0,
         file_opens = True, heap_snapshot = []\<rparr>,
       \<lparr>running_seen = True, now = 1000000, used_heap_size = 200, wall_time = 0,
         file_opens = True, heap_snapshot = []\<rparr>,
       \<lparr>running_seen = True, now = 2000000, used_heap_size = 300, wall_time = 0,
         file_opens = True, heap_snapshot = []\<rparr>]"
  have w: "unat (window (Start_options ?js)) = 2"
    by (simp add: Start_options_def to_integer_def Let_def)
  have ps: "samples_of ?ticks
      = [\<lparr>t = 0, bytes = 100\<rparr>, \<lparr>t = 1000000, bytes = 200\<rparr>, \<lparr>t = 2000000, bytes = 300\<rparr>]"
    by (simp add: samples_of_def sample_of_def)
  have h: "length (samples_of ?ticks) = unat (window (Start_options ?js)) + 1"
    by (simp add: w ps)
  from trend_window_is_bounded_fifo [of ?js ?ticks] h
  obtain r where "loop (Start_options ?js) [] ?ticks = Inr r"
    and "final_buf r = tl (samples_of ?ticks)"
    by blast
  with h show ?thesis by (simp add: ps)
qed

text \<open>
  C6. In every cycle the capture is attempted exactly when the slope of the updated
  window is greater than or equal to the threshold, and the alert is dispatched exactly
  when, in addition, the capture succeeds; below the threshold the cycle does nothing.
  A slope equal to the threshold triggers the capture.
\<close>

theorem capture_iff_slope_reaches_threshold:
  "\<exists>sl evs. slope (push_sample (window os) b (sample_of e)) = Inr sl
     \<and> cycle os b e = Inr (push_sample (window os) b (sample_of e), evs)
     \<and> ((Capture (snapshot_name (wall_time e)) (file_opens e) \<in> set evs)
          = dge sl (threshold os))
     \<and> ((BlockingCall sl (snapshot_name (wall_time e)) \<in> set evs)
          = (dge sl (threshold os) \<and> file_opens e))
     \<and> ((evs = []) = (\<not> dge sl (threshold os)))
     \<and> (deq sl (threshold os) \<longrightarrow>
          Capture (snapshot_name (wall_time e)) (file_opens e) \<in> set evs)"
proof -
  obtain sl where sl: "slope (push_sample (window os) b (sample_of e)) = Inr sl"
    using slope_total by blast
  note c = cycle_unfold [OF sl]
  show ?thesis
  proof (cases "dge sl (threshold os)")
    case True
    with sl c show ?thesis by (cases "file_opens e") auto
  next
    case False
    then have "\<not> deq sl (threshold os)" using deq_imp_dge by blast
    with False sl c show ?thesis by auto
  qed
qed

theorem capture_iff_slope_reaches_threshold_witness:
  "deq (Fin 100) (threshold \<lparr>interval = 60000, window = 30, threshold = Fin 100\<rparr>)
   \<and> (\<exists>evs. cycle \<lparr>interval = 60000, window = 30, threshold = Fin 100\<rparr>
              [\<lparr>t = 0, bytes = 100\<rparr>, \<lparr>t = 1000000, bytes = 200\<rparr>]
              \<lparr>running_seen = True, now = 2000000, used_heap_size = 300,
                wall_time = 1700000000, file_opens = True, heap_snapshot = []\<rparr>
            = Inr ([\<lparr>t = 0, bytes = 100\<rparr>, \<lparr>t = 1000000, bytes = 200\<rparr>,
                    \<lparr>t = 2000000, bytes = 300\<rparr>], evs)
          \<and> Capture ''heap-1700000000.heapsnapshot'' True \<in> set evs
          \<and> BlockingCall (Fin 100) ''heap-1700000000.heapsnapshot'' \<in> set evs)"
proof -
  let ?os = "\<lparr>interval = 60000, window = 30, threshold = Fin 100\<rparr>"
  let ?b = "[\<lparr>t = 0, bytes = 100\<rparr>, \<lparr>t = 1000000, bytes = (200 :: 64 word)\<rparr>]"
  let ?e = "\<lparr>running_seen = True, now = 2000000, used_heap_size = 300,
             wall_time = 1700000000, file_opens = True, heap_snapshot = []\<rparr>"
  let ?b' = "[\<lparr>t = 0, bytes = 100\<rparr>, \<lparr>t = 1000000, bytes = 200\<rparr>,
              \<lparr>t = 2000000, bytes = (300 :: 64 word)\<rparr>]"
  have p: "push_sample (window ?os) ?b (sample_of ?e) = ?b'"
    by (simp add: push_sample_def sample_of_def Let_def)
  have s: "slope ?b' = Inr (Fin 100)" by code_simp
  have n: "snapshot_name (wall_time ?e) = ''heap-1700000000.heapsnapshot''"
    by (simp add: snapshot_name_def to_string_def digits.simps)
  from capture_iff_slope_reaches_threshold [of ?os ?b ?e]
  show ?thesis unfolding p s n by auto
qed

text \<open>
  C9. In a cycle in which the slope reaches the threshold and the capture fails, the
  only thing the cycle does is the failed capture: there is no \<open>BlockingCall\<close>. The loop
  goes on with the next iteration from the updated window, and what it does from there
  is what it would do after any other cycle.
\<close>

theorem capture_failure_suppresses_the_alert:
  assumes "running_seen e"
    and "slope (push_sample (window os) b (sample_of e)) = Inr sl"
    and "dge sl (threshold os)"
    and "\<not> file_opens e"
  shows "cycle os b e = Inr (push_sample (window os) b (sample_of e),
                            [Capture (snapshot_name (wall_time e)) False])
    \<and> (\<exists>r. loop os (push_sample (window os) b (sample_of e)) es = Inr r
           \<and> loop os b (e # es)
               = Inr (r\<lparr>events := Capture (snapshot_name (wall_time e)) False # events r\<rparr>))"
proof -
  from cycle_unfold [OF assms(2)] assms(3,4)
  have c: "cycle os b e = Inr (push_sample (window os) b (sample_of e),
                              [Capture (snapshot_name (wall_time e)) False])"
    by simp
  obtain r where r: "loop os (push_sample (window os) b (sample_of e)) es = Inr r"
    using loop_total by blast
  from assms(1) c r show ?thesis by simp
qed

theorem capture_failure_suppresses_the_alert_witness:
  "running_seen \<lparr>running_seen = True, now = 2000000, used_heap_size = 300,
                 wall_time = 1700000000, file_opens = False, heap_snapshot = []\<rparr>
   \<and> slope (push_sample (window \<lparr>interval = 60000, window = 30, threshold = Fin 100\<rparr>)
              [\<lparr>t = 0, bytes = 100\<rparr>, \<lparr>t = 1000000, bytes = 200\<rparr>]
              (sample_of \<lparr>running_seen = True, now = 2000000, used_heap_size = 300,
                 wall_time = 1700000000, file_opens = False, heap_snapshot = []\<rparr>))
       = Inr (Fin 100)
   \<and> dge (Fin 100) (threshold \<lparr>interval = 60000, window = 30, threshold = Fin 100\<rparr>)
   \<and> \<not> file_opens \<lparr>running_seen = True, now = 2000000, used_heap_size = 300,
                 wall_time = 1700000000, file_opens = False, heap_snapshot = []\<rparr>
   \<and> loop \<lparr>interval = 60000, window = 30, threshold = Fin 100\<rparr>
        [\<lparr>t = 0, bytes = 100\<rparr>, \<lparr>t = 1000000, bytes = 200\<rparr>]
        [\<lparr>running_seen = True, now = 2000000, used_heap_size = 300,
           wall_time = 1700000000, file_opens = False, heap_snapshot = []\<rparr>]
       = Inr \<lparr>final_buf = [\<lparr>t = 0, bytes = 100\<rparr>, \<lparr>t = 1000000, bytes = 200\<rparr>,
                            \<lparr>t = 2000000, bytes = 300\<rparr>],
              events = [Capture ''heap-1700000000.heapsnapshot'' False],
              exited = False\<rparr>"
proof -
  let ?os = "\<lparr>interval = 60000, window = 30, threshold = Fin 100\<rparr>"
  let ?b = "[\<lparr>t = 0, bytes = 100\<rparr>, \<lparr>t = 1000000, bytes = (200 :: 64 word)\<rparr>]"
  let ?e = "\<lparr>running_seen = True, now = 2000000, used_heap_size = 300,
             wall_time = 1700000000, file_opens = False, heap_snapshot = []\<rparr>"
  let ?b' = "[\<lparr>t = 0, bytes = 100\<rparr>, \<lparr>t = 1000000, bytes = 200\<rparr>,
              \<lparr>t = 2000000, bytes = (300 :: 64 word)\<rparr>]"
  have p: "push_sample (window ?os) ?b (sample_of ?e) = ?b'"
    by (simp add: push_sample_def sample_of_def Let_def)
  have s: "slope ?b' = Inr (Fin 100)" by code_simp
  have n: "snapshot_name (wall_time ?e) = ''heap-1700000000.heapsnapshot''"
    by (simp add: snapshot_name_def to_string_def digits.simps)
  have h1: "running_seen ?e" by simp
  have h2: "slope (push_sample (window ?os) ?b (sample_of ?e)) = Inr (Fin 100)"
    by (simp only: p s)
  have h3: "dge (Fin 100) (threshold ?os)" by simp
  have h4: "\<not> file_opens ?e" by simp
  from capture_failure_suppresses_the_alert [OF h1 h2 h3 h4, of "[]"]
  have "loop ?os ?b [?e]
      = Inr \<lparr>final_buf = ?b', events = [Capture ''heap-1700000000.heapsnapshot'' False],
             exited = False\<rparr>"
    unfolding p n by auto
  with h1 h2 h3 h4 show ?thesis by blast
qed

section \<open>Start and Stop\<close>

lemma to_integer_of_int: "to_integer (of_int k) = k"
  by (simp add: to_integer_def)

lemma Uint32Value_of_int: "Uint32Value (Fin (of_int k)) = word_of_int k"
  by (simp add: to_integer_of_int)

text \<open>
  C3, as the code has it. \<open>interval\<close> and \<open>window\<close> are replaced by their defaults, 60000
  and 30, when the option is unset or zero, and \<open>threshold\<close> is replaced by 1024.0 when
  it is zero; so \<open>Start\<close> with \<open>interval = 0\<close> or without \<open>interval\<close> uses 60000 ms. Any
  other whole number given for \<open>interval\<close> or \<open>window\<close> is taken modulo \<open>2\<^sup>3\<^sup>2\<close>, so a
  negative \<open>-k\<close> becomes \<open>2\<^sup>3\<^sup>2 - k\<close>, and is replaced by the default only when that is
  zero. A finite non-zero \<open>threshold\<close>, negative ones included, is kept.
\<close>

theorem Start_replaces_zero_by_default:
  "(Get js ''interval'' = Undefined \<or> Get js ''interval'' = Number (Fin 0)
      \<longrightarrow> interval (Start_options js) = 60000)
   \<and> (Get js ''window'' = Undefined \<or> Get js ''window'' = Number (Fin 0)
      \<longrightarrow> window (Start_options js) = 30)
   \<and> (Get js ''threshold'' = Number (Fin 0) \<longrightarrow> threshold (Start_options js) = Fin 1024)
   \<and> (Get js ''interval'' = Number (Fin (of_int k))
      \<longrightarrow> interval (Start_options js)
          = (if (word_of_int k :: 32 word) = 0 then 60000 else word_of_int k))
   \<and> (Get js ''window'' = Number (Fin (of_int k))
      \<longrightarrow> window (Start_options js)
          = (if (word_of_int k :: 32 word) = 0 then 30 else word_of_int k))
   \<and> (Get js ''threshold'' = Number (Fin q) \<and> q \<noteq> 0
      \<longrightarrow> threshold (Start_options js) = Fin q)"
  by (auto simp add: Start_options_def Let_def double_to_bool_def to_integer_of_int
      to_integer_def)

theorem Start_replaces_zero_by_default_witness:
  "Get [(''interval'', Number (Fin 0)), (''threshold'', Number (Fin 0))] ''interval''
     = Number (Fin 0)
   \<and> Get [(''interval'', Number (Fin 0)), (''threshold'', Number (Fin 0))] ''window''
     = Undefined
   \<and> Get [(''interval'', Number (Fin 0)), (''threshold'', Number (Fin 0))] ''threshold''
     = Number (Fin 0)
   \<and> Start_options [(''interval'', Number (Fin 0)), (''threshold'', Number (Fin 0))]
     = \<lparr>interval = 60000, window = 30, threshold = Fin 1024\<rparr>
   \<and> Get [(''interval'', Number (Fin (of_int (- 5)))), (''window'', Number (Fin (of_int 7))),
           (''threshold'', Number (Fin (- 2)))] ''interval'' = Number (Fin (of_int (- 5)))
   \<and> interval (Start_options
         [(''interval'', Number (Fin (of_int (- 5)))), (''window'', Number (Fin (of_int 7))),
          (''threshold'', Number (Fin (- 2)))]) = 4294967291
   \<and> window (Start_options
         [(''interval'', Number (Fin (of_int (- 5)))), (''window'', Number (Fin (of_int 7))),
          (''threshold'', Number (Fin (- 2)))]) = 7
   \<and> threshold (Start_options
         [(''interval'', Number (Fin (of_int (- 5)))), (''window'', Number (Fin (of_int 7))),
          (''threshold'', Number (Fin (- 2)))]) = Fin (- 2)"
proof -
  let ?a = "[(''interval'', Number (Fin 0)), (''threshold'', Number (Fin 0))]"
  let ?b = "[(''interval'', Number (Fin (of_int (- 5)))), (''window'', Number (Fin (of_int 7))),
             (''threshold'', Number (Fin (- 2)))]"
  have a1: "Get ?a ''interval'' = Number (Fin 0)" by simp
  have a2: "Get ?a ''window'' = Undefined" by simp
  have a3: "Get ?a ''threshold'' = Number (Fin 0)" by simp
  from Start_replaces_zero_by_default [of ?a] a1 a2 a3
  have a: "interval (Start_options ?a) = 60000 \<and> window (Start_options ?a) = 30
      \<and> threshold (Start_options ?a) = Fin 1024"
    by blast
  then have a': "Start_options ?a = \<lparr>interval = 60000, window = 30, threshold = Fin 1024\<rparr>"
    by (cases "Start_options ?a") simp
  have b1: "Get ?b ''interval'' = Number (Fin (of_int (- 5)))" by simp
  have b2: "Get ?b ''window'' = Number (Fin (of_int 7))" by simp
  have b3: "Get ?b ''threshold'' = Number (Fin (- 2)) \<and> (- 2 :: rat) \<noteq> 0" by simp
  from Start_replaces_zero_by_default [of ?b "- 5" "- 2"] b1
  have i: "interval (Start_options ?b) = 4294967291" by simp
  from Start_replaces_zero_by_default [of ?b 7 "- 2"] b2 b3
  have w: "window (Start_options ?b) = 7 \<and> threshold (Start_options ?b) = Fin (- 2)"
    by simp
  from a1 a2 a3 a' b1 i w show ?thesis by blast
qed

text \<open>
  C3, as the specification states it, fails: an interval of \<open>-1\<close> is not replaced by
  60000 but becomes \<open>2\<^sup>3\<^sup>2 - 1\<close> milliseconds, and a threshold of \<open>-1.0\<close> stays \<open>-1.0\<close>.
\<close>

theorem Start_keeps_negative_options:
  "interval (Start_options [(''interval'', Number (Fin (- 1)))]) = 4294967295
   \<and> interval (Start_options [(''interval'', Number (Fin (- 1)))]) \<noteq> 60000
   \<and> threshold (Start_options [(''threshold'', Number (Fin (- 1)))]) = Fin (- 1)
   \<and> threshold (Start_options [(''threshold'', Number (Fin (- 1)))]) \<noteq> Fin 1024"
  by (simp add: Start_options_def Let_def double_to_bool_def to_integer_def)

text \<open>
  Without a \<open>threshold\<close> option the number read is NaN, which converts to \<^verbatim>\<open>true\<close>: the
  watchdog is built with a NaN threshold, and no slope compares greater than or equal to
  it.
\<close>

lemma Start_unset_threshold:
  "threshold (Start_options []) = NaN \<and> \<not> dge sl (threshold (Start_options []))"
  by (cases sl) (simp_all add: Start_options_def Let_def double_to_bool_def)

text \<open>
  C2 fails on the code. \<open>Stop\<close> deletes the watchdog behind the handle and leaves the
  handle as it was. A first \<open>Stop\<close> on the handle that \<open>Start\<close> returned runs the
  destructor and releases the watchdog; a second \<open>Stop\<close> on the same handle deletes the
  same address again, and so does the handle's finalizer.
\<close>

theorem second_Stop_deletes_again:
  "snd (Start \<lparr>objects = Map.empty, next_free = 0, log = []\<rparr> []) = External 0
   \<and> Stop (fst (Start \<lparr>objects = Map.empty, next_free = 0, log = []\<rparr> [])) [External 0]
       = Inr \<lparr>objects = Map.empty, next_free = 1,
              log = [StoreRunningFalse 0, ThreadJoin 0, TsfnAbort 0]\<rparr>
   \<and> Stop \<lparr>objects = Map.empty, next_free = 1,
            log = [StoreRunningFalse 0, ThreadJoin 0, TsfnAbort 0]\<rparr> [External 0]
       = Inl (DeleteOfFreed 0)
   \<and> External_finalizer \<lparr>objects = Map.empty, next_free = 1,
            log = [StoreRunningFalse 0, ThreadJoin 0, TsfnAbort 0]\<rparr> 0
       = Inl (DeleteOfFreed 0)"
  by (simp add: Start_def delete_Watchdog_def External_finalizer_def Watchdog_destroy_def
      Watchdog_new_def Let_def)

end
